theory Spec2Isabelle
  imports Main "HOL-Library.Word"
begin

unbundle bit_operations_syntax

section \<open>Data model of main.c\<close>

type_synonym byte = "8 word"

text \<open>
  The compile-time constants of main.c. \<open>ID_SIZE\<close>, \<open>USERNAME_SIZE\<close> and
  \<open>EMAIL_SIZE\<close> are \<open>sizeof\<close> of the fields \<open>uint32_t id\<close>,
  \<open>char username[COLUMN_USERNAME_SIZE + 1]\<close> and \<open>char email[COLUMN_EMAIL_SIZE + 1]\<close>.
  All quantities of the program are \<open>uint32_t\<close>; they are modelled as \<open>nat\<close>, and
  where a value is cut to 32 bits (the file length in \<open>openPager\<close>, the seek offset in
  \<open>flushPager\<close>) the \<open>mod\<close> is written out.
\<close>

definition COLUMN_USERNAME_SIZE :: nat where "COLUMN_USERNAME_SIZE = 32"
definition COLUMN_EMAIL_SIZE :: nat where "COLUMN_EMAIL_SIZE = 255"
definition TABLE_MAX_PAGES :: nat where "TABLE_MAX_PAGES = 100"

definition ID_SIZE :: nat where "ID_SIZE = 4"
definition USERNAME_SIZE :: nat where "USERNAME_SIZE = COLUMN_USERNAME_SIZE + 1"
definition EMAIL_SIZE :: nat where "EMAIL_SIZE = COLUMN_EMAIL_SIZE + 1"
definition ID_OFFSET :: nat where "ID_OFFSET = 0"
definition USERNAME_OFFSET :: nat where "USERNAME_OFFSET = ID_OFFSET + ID_SIZE"
definition EMAIL_OFFSET :: nat where "EMAIL_OFFSET = USERNAME_OFFSET + USERNAME_SIZE"
definition ROW_SIZE :: nat where "ROW_SIZE = ID_SIZE + USERNAME_SIZE + EMAIL_SIZE"

definition PAGE_SIZE :: nat where "PAGE_SIZE = 4096"
definition ROWS_PER_PAGE :: nat where "ROWS_PER_PAGE = PAGE_SIZE div ROW_SIZE"
definition TABLE_MAX_ROWS :: nat where "TABLE_MAX_ROWS = ROWS_PER_PAGE * TABLE_MAX_PAGES"

datatype ExecuteResult = EXECUTE_SUCCESS | EXECUTE_TABLE_FULL

text \<open>
  \<open>struct Row\<close>: the two character arrays are byte lists; the array sizes 33 and 256
  are the predicate \<open>row_sized\<close>. A row whose fields hold NUL-terminated strings of at
  most 32 and 255 bytes (what \<open>prepareInsertStatement\<close> builds with \<open>strcpy\<close>) is
  \<open>valid_row\<close>: some byte of each array is 0.
\<close>

record Row =
  id :: "32 word"
  username :: "byte list"
  email :: "byte list"

definition row_sized :: "Row \<Rightarrow> bool" where
  "row_sized r \<longleftrightarrow> length (username r) = USERNAME_SIZE \<and> length (email r) = EMAIL_SIZE"

definition valid_row :: "Row \<Rightarrow> bool" where
  "valid_row r \<longleftrightarrow> row_sized r \<and> 0 \<in> set (username r) \<and> 0 \<in> set (email r)"

text \<open>
  The exits of the program that do not come from the environment. \<open>PageOutOfBounds\<close>
  is the \<open>exit\<close> of \<open>getPage\<close>, \<open>FlushNullPage\<close> the one of \<open>flushPager\<close>.
  \<open>ArrayIndexOutOfRange\<close> stands for an access \<open>pager->pages[i]\<close> with
  \<open>i \<ge> TABLE_MAX_PAGES\<close>, which C leaves undefined. The exits after a failed
  \<open>open\<close>, \<open>lseek\<close>, \<open>read\<close>, \<open>write\<close> or \<open>close\<close> belong to the environment:
  the file of the model is a list of bytes, on which these calls succeed.
\<close>

datatype error = PageOutOfBounds | FlushNullPage | ArrayIndexOutOfRange

text \<open>
  \<open>struct Pager\<close>. The descriptor \<open>fd\<close> is modelled by the contents of the file it
  is open on; \<open>fLen\<close> is the length recorded by \<open>openPager\<close>; \<open>pages\<close> is the array
  of \<open>TABLE_MAX_PAGES\<close> buffers, \<open>None\<close> for \<open>NULL\<close>.
\<close>

record Pager =
  fd :: "byte list"
  fLen :: nat
  pages :: "nat \<Rightarrow> byte list option"

record Table =
  numRows :: nat
  pager :: Pager

section \<open>Memory and file primitives\<close>

text \<open>\<open>memcpy(dest + off, src, n)\<close> into a buffer, and the \<open>n\<close> bytes at \<open>src + off\<close>.\<close>

definition memcpy_to :: "byte list \<Rightarrow> nat \<Rightarrow> byte list \<Rightarrow> byte list" where
  "memcpy_to dest off src = take off dest @ src @ drop (off + length src) dest"

definition bytes_at :: "byte list \<Rightarrow> nat \<Rightarrow> nat \<Rightarrow> byte list" where
  "bytes_at src off n = take n (drop off src)"

text \<open>
  \<open>malloc(PAGE_SIZE)\<close> returns a block whose contents are indeterminate. They are a
  parameter of the model: \<open>mem p k\<close> is byte \<open>k\<close> of the block handed out for page
  \<open>p\<close>.
\<close>

definition malloc_page :: "(nat \<Rightarrow> nat \<Rightarrow> byte) \<Rightarrow> nat \<Rightarrow> byte list" where
  "malloc_page mem p = map (mem p) [0..<PAGE_SIZE]"

text \<open>
  \<open>lseek\<close> to \<open>off\<close> followed by \<open>read\<close> of \<open>PAGE_SIZE\<close> bytes into a buffer: the
  bytes the file has from \<open>off\<close> on replace the front of the buffer, the rest of the
  buffer stays.
\<close>

definition read_page :: "byte list \<Rightarrow> nat \<Rightarrow> byte list \<Rightarrow> byte list" where
  "read_page file off buf = memcpy_to buf 0 (bytes_at file off PAGE_SIZE)"

text \<open>
  \<open>lseek\<close> to \<open>off\<close> followed by \<open>write\<close> of \<open>data\<close>: a gap between the end of the
  file and \<open>off\<close> reads as zeros (POSIX), bytes under \<open>data\<close> are overwritten.
\<close>

definition write_at :: "byte list \<Rightarrow> nat \<Rightarrow> byte list \<Rightarrow> byte list" where
  "write_at file off data =
     take off file @ replicate (off - length file) 0 @ data @ drop (off + length data) file"

section \<open>Row codec\<close>

text \<open>The four bytes of a \<open>uint32_t\<close> in memory, least significant first.\<close>

definition id_bytes :: "32 word \<Rightarrow> byte list" where
  "id_bytes w = [ucast w, ucast (drop_bit 8 w), ucast (drop_bit 16 w), ucast (drop_bit 24 w)]"

definition bytes_id :: "byte list \<Rightarrow> 32 word" where
  "bytes_id bs = ucast (bs ! 0) OR push_bit 8 (ucast (bs ! 1))
                 OR push_bit 16 (ucast (bs ! 2)) OR push_bit 24 (ucast (bs ! 3))"

text \<open>\<open>serializeRow(source, dest)\<close>, with \<open>dest\<close> the position \<open>off\<close> of a buffer.\<close>

definition serializeRow :: "Row \<Rightarrow> byte list \<Rightarrow> nat \<Rightarrow> byte list" where
  "serializeRow source buf off =
     (let b1 = memcpy_to buf (off + ID_OFFSET) (id_bytes (id source));
          b2 = memcpy_to b1 (off + USERNAME_OFFSET) (bytes_at (username source) 0 USERNAME_SIZE);
          b3 = memcpy_to b2 (off + EMAIL_OFFSET) (bytes_at (email source) 0 EMAIL_SIZE)
      in b3)"

text \<open>\<open>deserializeRow(source, dest)\<close>, with \<open>source\<close> the position \<open>off\<close> of a buffer.\<close>

definition deserializeRow :: "byte list \<Rightarrow> nat \<Rightarrow> Row" where
  "deserializeRow buf off =
     \<lparr> id = bytes_id (bytes_at buf (off + ID_OFFSET) ID_SIZE),
       username = bytes_at buf (off + USERNAME_OFFSET) USERNAME_SIZE,
       email = bytes_at buf (off + EMAIL_OFFSET) EMAIL_SIZE \<rparr>"

text \<open>The encoded record of a row: \<open>serializeRow\<close> into a buffer of \<open>ROW_SIZE\<close> bytes.\<close>

definition encode :: "Row \<Rightarrow> byte list" where
  "encode r = serializeRow r (replicate ROW_SIZE 0) 0"

definition decode :: "byte list \<Rightarrow> Row" where
  "decode bs = deserializeRow bs 0"

section \<open>Pager\<close>

definition openPager :: "byte list \<Rightarrow> Pager" where
  "openPager file = \<lparr> fd = file, fLen = length file mod 2 ^ 32, pages = (\<lambda>i. None) \<rparr>"

text \<open>The array access \<open>pager->pages[i]\<close>.\<close>

definition page_slot :: "Pager \<Rightarrow> nat \<Rightarrow> error + byte list option" where
  "page_slot pg i = (if i < TABLE_MAX_PAGES then Inr (pages pg i) else Inl ArrayIndexOutOfRange)"

text \<open>
  \<open>getPage\<close> returns the pager with the slot resident and the buffer of the page.
  The guard is the source's \<open>pageNum > TABLE_MAX_PAGES\<close>. Where the 32-bit product
  \<open>pageNum * PAGE_SIZE\<close> is computed, \<open>pageNum\<close> is at most 99 and the product does
  not wrap; in \<open>flushPager\<close> the wrap-around is written out.
\<close>

definition getPage :: "(nat \<Rightarrow> nat \<Rightarrow> byte) \<Rightarrow> Pager \<Rightarrow> nat \<Rightarrow> error + (Pager \<times> byte list)" where
  "getPage mem pg pageNum =
     (if pageNum > TABLE_MAX_PAGES then Inl PageOutOfBounds
      else case page_slot pg pageNum of
        Inl e \<Rightarrow> Inl e
      | Inr (Some page) \<Rightarrow> Inr (pg, page)
      | Inr None \<Rightarrow>
          (let page = malloc_page mem pageNum;
               numPages = fLen pg div PAGE_SIZE;
               numPages = (if fLen pg mod PAGE_SIZE \<noteq> 0 then numPages + 1 else numPages);
               page = (if pageNum \<le> numPages
                       then read_page (fd pg) (pageNum * PAGE_SIZE) page else page)
           in Inr (pg\<lparr>pages := (pages pg)(pageNum \<mapsto> page)\<rparr>, page)))"

definition flushPager :: "Pager \<Rightarrow> nat \<Rightarrow> nat \<Rightarrow> error + Pager" where
  "flushPager pg pageNum sz =
     (case page_slot pg pageNum of
        Inl e \<Rightarrow> Inl e
      | Inr None \<Rightarrow> Inl FlushNullPage
      | Inr (Some page) \<Rightarrow>
          Inr (pg\<lparr>fd := write_at (fd pg) ((pageNum * PAGE_SIZE) mod 2 ^ 32) (bytes_at page 0 sz)\<rparr>))"

section \<open>Table\<close>

definition openDatabase :: "byte list \<Rightarrow> Table" where
  "openDatabase file =
     (let pg = openPager file; n = fLen pg div ROW_SIZE
      in \<lparr> numRows = n, pager = pg \<rparr>)"

text \<open>The arithmetic of \<open>rowSlot\<close>: page number and byte offset of a row.\<close>

definition row_address :: "nat \<Rightarrow> nat \<times> nat" where
  "row_address rowNum = (rowNum div ROWS_PER_PAGE, (rowNum mod ROWS_PER_PAGE) * ROW_SIZE)"

text \<open>
  \<open>rowSlot\<close> returns a pointer into the page buffer; here it is the table with the page
  resident, and the address (page number, byte offset) of the slot.
\<close>

definition rowSlot :: "(nat \<Rightarrow> nat \<Rightarrow> byte) \<Rightarrow> Table \<Rightarrow> nat \<Rightarrow> error + (Table \<times> nat \<times> nat)" where
  "rowSlot mem t rowNum =
     (let (pageNum, byteOffset) = row_address rowNum
      in case getPage mem (pager t) pageNum of
           Inl e \<Rightarrow> Inl e
         | Inr (pg, page) \<Rightarrow> Inr (t\<lparr>pager := pg\<rparr>, pageNum, byteOffset))"

text \<open>The buffer a slot pointer points into.\<close>

definition page_of :: "Table \<Rightarrow> nat \<Rightarrow> byte list" where
  "page_of t pageNum = (case pages (pager t) pageNum of Some page \<Rightarrow> page | None \<Rightarrow> [])"

definition executeInsertStatement ::
  "(nat \<Rightarrow> nat \<Rightarrow> byte) \<Rightarrow> Row \<Rightarrow> Table \<Rightarrow> error + (ExecuteResult \<times> Table)" where
  "executeInsertStatement mem rowToInsert t =
     (if numRows t \<ge> TABLE_MAX_ROWS then Inr (EXECUTE_TABLE_FULL, t)
      else case rowSlot mem t (numRows t) of
        Inl e \<Rightarrow> Inl e
      | Inr (t1, pageNum, byteOffset) \<Rightarrow>
          (let page = serializeRow rowToInsert (page_of t1 pageNum) byteOffset;
               t2 = t1\<lparr>pager := (pager t1)\<lparr>pages := (pages (pager t1))(pageNum \<mapsto> page)\<rparr>\<rparr>
           in Inr (EXECUTE_SUCCESS, t2\<lparr>numRows := numRows t2 + 1\<rparr>)))"

text \<open>
  The loop of \<open>executeSelectStatement\<close> from index \<open>i\<close>, \<open>n\<close> rows to go; the rows
  handed to \<open>printRow\<close> are collected in order.
\<close>

fun select_loop :: "(nat \<Rightarrow> nat \<Rightarrow> byte) \<Rightarrow> Table \<Rightarrow> nat \<Rightarrow> nat \<Rightarrow> error + (Row list \<times> Table)" where
  "select_loop mem t i 0 = Inr ([], t)"
| "select_loop mem t i (Suc n) =
     (case rowSlot mem t i of
        Inl e \<Rightarrow> Inl e
      | Inr (t1, pageNum, byteOffset) \<Rightarrow>
          (let row = deserializeRow (page_of t1 pageNum) byteOffset
           in case select_loop mem t1 (i + 1) n of
                Inl e \<Rightarrow> Inl e
              | Inr (rows, t2) \<Rightarrow> Inr (row # rows, t2)))"

definition executeSelectStatement ::
  "(nat \<Rightarrow> nat \<Rightarrow> byte) \<Rightarrow> Table \<Rightarrow> error + (Row list \<times> Table)" where
  "executeSelectStatement mem t = select_loop mem t 0 (numRows t)"

text \<open>The first loop of \<open>closeDatabase\<close>, over the page numbers it visits.\<close>

fun flush_full_pages :: "Pager \<Rightarrow> nat list \<Rightarrow> error + Pager" where
  "flush_full_pages pg [] = Inr pg"
| "flush_full_pages pg (i # is) =
     (case page_slot pg i of
        Inl e \<Rightarrow> Inl e
      | Inr None \<Rightarrow> flush_full_pages pg is
      | Inr (Some page) \<Rightarrow>
          (case flushPager pg i PAGE_SIZE of
             Inl e \<Rightarrow> Inl e
           | Inr pg1 \<Rightarrow> flush_full_pages (pg1\<lparr>pages := (pages pg1)(i := None)\<rparr>) is))"

text \<open>
  \<open>closeDatabase\<close>: the result is the contents of the file when the descriptor is closed
  (the buffers, the pager and the table are freed).
\<close>

definition closeDatabase :: "Table \<Rightarrow> error + byte list" where
  "closeDatabase t =
     (let numFullPages = numRows t div ROWS_PER_PAGE
      in case flush_full_pages (pager t) [0..<numFullPages] of
           Inl e \<Rightarrow> Inl e
         | Inr pg \<Rightarrow>
             (let numAdditionalRows = numRows t mod ROWS_PER_PAGE
              in if numAdditionalRows > 0
                 then (let pageNum = numFullPages
                       in case page_slot pg pageNum of
                            Inl e \<Rightarrow> Inl e
                          | Inr None \<Rightarrow> Inr (fd pg)
                          | Inr (Some page) \<Rightarrow>
                              (case flushPager pg pageNum (numAdditionalRows * ROW_SIZE) of
                                 Inl e \<Rightarrow> Inl e
                               | Inr pg1 \<Rightarrow> Inr (fd pg1)))
                 else Inr (fd pg)))"

text \<open>A session of inserts: the statements are executed in order.\<close>

fun insert_rows :: "(nat \<Rightarrow> nat \<Rightarrow> byte) \<Rightarrow> Row list \<Rightarrow> Table \<Rightarrow> error + (ExecuteResult list \<times> Table)" where
  "insert_rows mem [] t = Inr ([], t)"
| "insert_rows mem (r # rs) t =
     (case executeInsertStatement mem r t of
        Inl e \<Rightarrow> Inl e
      | Inr (res, t1) \<Rightarrow>
          (case insert_rows mem rs t1 of
             Inl e \<Rightarrow> Inl e
           | Inr (ress, t2) \<Rightarrow> Inr (res # ress, t2)))"

section \<open>Notions used in the statements\<close>

text \<open>The \<open>ROW_SIZE\<close> bytes of a row in memory: \<open>id\<close>, \<open>username\<close>, \<open>email\<close>.\<close>

definition row_bytes :: "Row \<Rightarrow> byte list" where
  "row_bytes r = id_bytes (id r) @ username r @ email r"

text \<open>
  Every resident buffer of the slot array is a block of \<open>PAGE_SIZE\<close> bytes, as
  \<open>getPage\<close> allocates it.
\<close>

definition page_sized :: "Pager \<Rightarrow> bool" where
  "page_sized pg \<longleftrightarrow>
     (\<forall>p \<in> set [0..<TABLE_MAX_PAGES].
        case pages pg p of None \<Rightarrow> True | Some page \<Rightarrow> length page = PAGE_SIZE)"

text \<open>The buffer that \<open>getPage\<close> returns for a page (empty where \<open>getPage\<close> exits).\<close>

definition fetched :: "(nat \<Rightarrow> nat \<Rightarrow> byte) \<Rightarrow> Pager \<Rightarrow> nat \<Rightarrow> byte list" where
  "fetched mem pg pageNum = (case getPage mem pg pageNum of Inl e \<Rightarrow> [] | Inr (pg1, page) \<Rightarrow> page)"

text \<open>
  The row that the body of the loop of \<open>executeSelectStatement\<close> hands to \<open>printRow\<close>
  at index \<open>i\<close>.
\<close>

definition row_at :: "(nat \<Rightarrow> nat \<Rightarrow> byte) \<Rightarrow> Table \<Rightarrow> nat \<Rightarrow> error + Row" where
  "row_at mem t i =
     (case rowSlot mem t i of
        Inl e \<Rightarrow> Inl e
      | Inr (t1, pageNum, byteOffset) \<Rightarrow> Inr (deserializeRow (page_of t1 pageNum) byteOffset))"

text \<open>
  The table holds the rows \<open>rows\<close>: its count is their number, and the slot of each
  index, in a resident page, holds the bytes of the row.
\<close>

definition holds_rows :: "Table \<Rightarrow> Row list \<Rightarrow> bool" where
  "holds_rows t rows \<longleftrightarrow>
     numRows t = length rows \<and> page_sized (pager t) \<and>
     (\<forall>i < length rows. \<exists>page. pages (pager t) (fst (row_address i)) = Some page \<and>
        bytes_at page (snd (row_address i)) ROW_SIZE = row_bytes (rows ! i))"

text \<open>
  One run of \<open>main\<close> on a file: \<open>openDatabase\<close>, the inserts, and \<open>.exit\<close>, which
  calls \<open>closeDatabase\<close>; the result is the file left behind.
\<close>

definition session_file :: "(nat \<Rightarrow> nat \<Rightarrow> byte) \<Rightarrow> Row list \<Rightarrow> byte list \<Rightarrow> error + byte list" where
  "session_file mem rows file =
     (case insert_rows mem rows (openDatabase file) of
        Inl e \<Rightarrow> Inl e
      | Inr (res, t) \<Rightarrow> closeDatabase t)"

section \<open>Concrete inputs\<close>

text \<open>A row with id 7 and empty strings, and a block of memory that is not zero.\<close>

definition row0 :: Row where
  "row0 = \<lparr> id = 7, username = replicate 33 0, email = replicate 256 0 \<rparr>"

definition mem1 :: "nat \<Rightarrow> nat \<Rightarrow> byte" where
  "mem1 p k = 1"

text \<open>A table of 14 rows on an empty file with no page resident, and a full table.\<close>

definition table14 :: Table where
  "table14 = \<lparr> numRows = 14, pager = openPager [] \<rparr>"

definition table_full :: Table where
  "table_full = \<lparr> numRows = TABLE_MAX_ROWS, pager = openPager [] \<rparr>"

text \<open>A table of one row, \<open>row0\<close>, whose page 0 is resident.\<close>

definition page1 :: "byte list" where
  "page1 = serializeRow row0 (replicate PAGE_SIZE 1) 0"

definition table1 :: Table where
  "table1 = \<lparr> numRows = 1, pager = (openPager [])\<lparr>pages := (pages (openPager []))(0 \<mapsto> page1)\<rparr> \<rparr>"

section \<open>Constants\<close>

lemma ROW_SIZE_val: "ROW_SIZE = 293"
  by (simp add: ROW_SIZE_def ID_SIZE_def USERNAME_SIZE_def EMAIL_SIZE_def
      COLUMN_USERNAME_SIZE_def COLUMN_EMAIL_SIZE_def)

lemma ROWS_PER_PAGE_val: "ROWS_PER_PAGE = 13"
  by (simp add: ROWS_PER_PAGE_def ROW_SIZE_val PAGE_SIZE_def)

lemma TABLE_MAX_ROWS_val: "TABLE_MAX_ROWS = 1300"
  by (simp add: TABLE_MAX_ROWS_def ROWS_PER_PAGE_val TABLE_MAX_PAGES_def)

lemma offsets_val: "ID_OFFSET = 0" "USERNAME_OFFSET = 4" "EMAIL_OFFSET = 37"
  "ID_SIZE = 4" "USERNAME_SIZE = 33" "EMAIL_SIZE = 256"
  by (simp_all add: ID_OFFSET_def USERNAME_OFFSET_def EMAIL_OFFSET_def ID_SIZE_def
      USERNAME_SIZE_def EMAIL_SIZE_def COLUMN_USERNAME_SIZE_def COLUMN_EMAIL_SIZE_def)

section \<open>Buffers and the codec\<close>


lemma length_memcpy_to:
  "off + length src \<le> length dest \<Longrightarrow> length (memcpy_to dest off src) = length dest"
  by (simp add: memcpy_to_def)

lemma nth_memcpy_to:
  "off + length src \<le> length dest \<Longrightarrow> k < length dest \<Longrightarrow>
   memcpy_to dest off src ! k = (if off \<le> k \<and> k < off + length src then src ! (k - off) else dest ! k)"
  by (auto simp: memcpy_to_def nth_append)

lemma bytes_at_memcpy_to_same:
  "off + length src \<le> length dest \<Longrightarrow> bytes_at (memcpy_to dest off src) off (length src) = src"
  by (simp add: memcpy_to_def bytes_at_def)

lemma memcpy_to_memcpy_to:
  "off + length a + length b \<le> length dest \<Longrightarrow>
   memcpy_to (memcpy_to dest off a) (off + length a) b = memcpy_to dest off (a @ b)"
  by (simp add: memcpy_to_def ac_simps)

lemma length_id_bytes: "length (id_bytes w) = 4"
  by (simp add: id_bytes_def)

lemma length_row_bytes: "row_sized r \<Longrightarrow> length (row_bytes r) = ROW_SIZE"
  by (simp add: row_bytes_def row_sized_def length_id_bytes ROW_SIZE_def ID_SIZE_def)

lemma serializeRow_memcpy:
  assumes "row_sized r" "off + ROW_SIZE \<le> length buf"
  shows "serializeRow r buf off = memcpy_to buf off (row_bytes r)"
proof -
  have u: "bytes_at (username r) 0 33 = username r"
    and e: "bytes_at (email r) 0 256 = email r"
    using assms(1) by (simp_all add: bytes_at_def row_sized_def offsets_val)
  have l: "length (username r) = 33" "length (email r) = 256"
    using assms(1) by (simp_all add: row_sized_def offsets_val)
  have b: "off + 293 \<le> length buf" using assms(2) by (simp add: ROW_SIZE_val)
  have "memcpy_to (memcpy_to buf off (id_bytes (id r))) (off + 4) (username r)
        = memcpy_to buf off (id_bytes (id r) @ username r)"
    using memcpy_to_memcpy_to [of off "id_bytes (id r)" "username r" buf] b l
    by (simp add: length_id_bytes)
  moreover have "memcpy_to (memcpy_to buf off (id_bytes (id r) @ username r)) (off + 37) (email r)
        = memcpy_to buf off ((id_bytes (id r) @ username r) @ email r)"
    using memcpy_to_memcpy_to [of off "id_bytes (id r) @ username r" "email r" buf] b l
    by (simp add: length_id_bytes)
  ultimately show ?thesis
    by (simp add: serializeRow_def u e offsets_val row_bytes_def)
qed

lemma bytes_id_id_bytes: "bytes_id (id_bytes w) = w"
  unfolding bytes_id_def id_bytes_def
  apply (rule bit_word_eqI)
  apply (auto simp add: bit_simps)
  subgoal for n by (cases "24 \<le> n") auto
  done




lemma length_bytes_at: "length (bytes_at xs off n) = min n (length xs - off)"
  by (simp add: bytes_at_def)

lemma nth_bytes_at: "k < n \<Longrightarrow> off + k < length xs \<Longrightarrow> bytes_at xs off n ! k = xs ! (off + k)"
  by (simp add: bytes_at_def)

lemma bytes_at_bytes_at:
  "b + m \<le> n \<Longrightarrow> bytes_at (bytes_at xs a n) b m = bytes_at xs (a + b) m"
  by (simp add: bytes_at_def drop_take min_def ac_simps)

lemma bytes_at_memcpy_to_other:
  assumes "off + length src \<le> length dest" "b + m \<le> off \<or> off + length src \<le> b"
  shows "bytes_at (memcpy_to dest off src) b m = bytes_at dest b m"
proof (rule nth_equalityI)
  show "length (bytes_at (memcpy_to dest off src) b m) = length (bytes_at dest b m)"
    using assms(1) by (simp add: length_bytes_at length_memcpy_to)
next
  fix k assume "k < length (bytes_at (memcpy_to dest off src) b m)"
  then have k: "k < m" "b + k < length dest"
    using assms(1) by (auto simp add: length_bytes_at length_memcpy_to)
  then show "bytes_at (memcpy_to dest off src) b m ! k = bytes_at dest b m ! k"
    using assms by (auto simp: nth_bytes_at length_memcpy_to nth_memcpy_to)
qed

lemma deserializeRow_bytes_at:
  "deserializeRow buf off = deserializeRow (bytes_at buf off ROW_SIZE) 0"
  by (simp add: deserializeRow_def bytes_at_bytes_at offsets_val ROW_SIZE_val)

lemma deserializeRow_row_bytes: "row_sized r \<Longrightarrow> deserializeRow (row_bytes r) 0 = r"
  by (simp add: deserializeRow_def row_bytes_def bytes_at_def offsets_val row_sized_def
      length_id_bytes bytes_id_id_bytes)

lemma encode_row_bytes: "row_sized r \<Longrightarrow> encode r = row_bytes r"
  using serializeRow_memcpy [of r 0 "replicate ROW_SIZE 0"]
  by (simp add: encode_def memcpy_to_def length_row_bytes)

lemma valid_row0: "valid_row row0"
  by (simp add: valid_row_def row_sized_def row0_def offsets_val)



lemma TABLE_MAX_PAGES_val: "TABLE_MAX_PAGES = 100"
  by (simp add: TABLE_MAX_PAGES_def)

lemma page_sized_iff:
  "page_sized pg \<longleftrightarrow>
     (\<forall>p page. p < TABLE_MAX_PAGES \<longrightarrow> pages pg p = Some page \<longrightarrow> length page = PAGE_SIZE)"
  by (auto simp: page_sized_def split: option.splits)

lemma length_malloc_page: "length (malloc_page mem p) = PAGE_SIZE"
  by (simp add: malloc_page_def)

lemma length_read_page: "length buf = PAGE_SIZE \<Longrightarrow> length (read_page file off buf) = PAGE_SIZE"
  by (simp add: read_page_def memcpy_to_def bytes_at_def)

lemma getPage_eq:
  assumes "pageNum < TABLE_MAX_PAGES"
  shows "getPage mem pg pageNum =
         Inr (pg\<lparr>pages := (pages pg)(pageNum \<mapsto> fetched mem pg pageNum)\<rparr>, fetched mem pg pageNum)"
proof (cases "pages pg pageNum")
  case None
  then show ?thesis using assms
    by (simp add: fetched_def getPage_def page_slot_def Let_def)
next
  case (Some page)
  then have "(pages pg)(pageNum \<mapsto> page) = pages pg" by (rule map_upd_triv)
  then show ?thesis using assms Some
    by (simp add: fetched_def getPage_def page_slot_def)
qed

lemma fetched_resident:
  "pageNum < TABLE_MAX_PAGES \<Longrightarrow> pages pg pageNum = Some page \<Longrightarrow> fetched mem pg pageNum = page"
  by (simp add: fetched_def getPage_def page_slot_def)

lemma fetched_miss:
  "pageNum < TABLE_MAX_PAGES \<Longrightarrow> pages pg pageNum = None \<Longrightarrow>
   fetched mem pg pageNum =
     (if pageNum \<le> (if fLen pg mod PAGE_SIZE \<noteq> 0 then fLen pg div PAGE_SIZE + 1 else fLen pg div PAGE_SIZE)
      then read_page (fd pg) (pageNum * PAGE_SIZE) (malloc_page mem pageNum)
      else malloc_page mem pageNum)"
  by (simp add: fetched_def getPage_def page_slot_def Let_def)

lemma length_fetched:
  "pageNum < TABLE_MAX_PAGES \<Longrightarrow> page_sized pg \<Longrightarrow> length (fetched mem pg pageNum) = PAGE_SIZE"
  by (cases "pages pg pageNum")
     (auto simp: fetched_miss fetched_resident length_read_page length_malloc_page page_sized_iff)

lemma fetched_cong:
  "pages pg p = pages pg' p \<Longrightarrow> fd pg = fd pg' \<Longrightarrow> fLen pg = fLen pg' \<Longrightarrow>
   fetched mem pg p = fetched mem pg' p"
  by (simp add: fetched_def getPage_def page_slot_def Let_def split: option.splits)

lemma page_sized_upd:
  "page_sized pg \<Longrightarrow> length page = PAGE_SIZE \<Longrightarrow> page_sized (pg\<lparr>pages := (pages pg)(p \<mapsto> page)\<rparr>)"
  by (auto simp: page_sized_iff)

lemma row_address_page: "rowNum < TABLE_MAX_ROWS \<Longrightarrow> fst (row_address rowNum) < TABLE_MAX_PAGES"
  by (simp add: row_address_def TABLE_MAX_ROWS_val ROWS_PER_PAGE_val TABLE_MAX_PAGES_val)

lemma row_address_offset: "snd (row_address rowNum) + ROW_SIZE \<le> PAGE_SIZE"
proof -
  have "rowNum mod 13 \<le> 12" by simp
  then have "(rowNum mod 13) * 293 \<le> 12 * 293" by (rule mult_le_mono1)
  then show ?thesis
    by (simp add: row_address_def ROW_SIZE_val ROWS_PER_PAGE_val PAGE_SIZE_def)
qed

lemma rowSlot_eq:
  assumes "rowNum < TABLE_MAX_ROWS"
  shows "rowSlot mem t rowNum =
    Inr (t\<lparr>pager := (pager t)\<lparr>pages := (pages (pager t))
             (fst (row_address rowNum) \<mapsto> fetched mem (pager t) (fst (row_address rowNum)))\<rparr>\<rparr>,
         fst (row_address rowNum), snd (row_address rowNum))"
  using getPage_eq [OF row_address_page [OF assms], of mem "pager t"]
  by (simp add: rowSlot_def split_beta)

lemma row_at_eq:
  "i < TABLE_MAX_ROWS \<Longrightarrow>
   row_at mem t i = Inr (deserializeRow (fetched mem (pager t) (fst (row_address i))) (snd (row_address i)))"
  by (simp add: row_at_def rowSlot_eq page_of_def split_beta)

lemma executeInsertStatement_eq:
  assumes "numRows t < TABLE_MAX_ROWS"
  shows "executeInsertStatement mem r t =
    Inr (EXECUTE_SUCCESS,
         \<lparr> numRows = numRows t + 1,
           pager = (pager t)\<lparr>pages := (pages (pager t))
             (fst (row_address (numRows t)) \<mapsto>
                serializeRow r (fetched mem (pager t) (fst (row_address (numRows t))))
                  (snd (row_address (numRows t))))\<rparr> \<rparr>)"
  using assms by (simp add: executeInsertStatement_def rowSlot_eq page_of_def split_beta)


section \<open>Addresses and the select loop\<close>

lemma row_address_same_page:
  assumes "i < n" "fst (row_address i) = fst (row_address n)"
  shows "snd (row_address i) + ROW_SIZE \<le> snd (row_address n)"
proof -
  have d: "i div 13 = n div 13" using assms(2) by (simp add: row_address_def ROWS_PER_PAGE_val)
  have "i = 13 * (i div 13) + i mod 13" "n = 13 * (n div 13) + n mod 13" by simp_all
  with d assms(1) have "i mod 13 < n mod 13" by linarith
  then have "i mod 13 + 1 \<le> n mod 13" by simp
  then have "(i mod 13 + 1) * 293 \<le> (n mod 13) * 293" by (rule mult_le_mono1)
  then show ?thesis by (simp add: row_address_def ROWS_PER_PAGE_val ROW_SIZE_val)
qed

lemma select_loop_returns:
  "i + n \<le> TABLE_MAX_ROWS \<Longrightarrow> \<exists>res. select_loop mem t i n = Inr res"
proof (induction n arbitrary: t i)
  case 0
  then show ?case by simp
next
  case (Suc n)
  from Suc.prems have i: "i < TABLE_MAX_ROWS" and "(i + 1) + n \<le> TABLE_MAX_ROWS" by simp_all
  from Suc.IH [OF this(2)] show ?case
    by (simp add: rowSlot_eq [OF i] split: sum.splits prod.splits) (metis Inl_Inr_False)
qed


section \<open>Sequences of inserts\<close>

lemma insert_rows_count:
  "numRows t + length rows \<le> TABLE_MAX_ROWS \<Longrightarrow>
   \<exists>t'. insert_rows mem rows t = Inr (replicate (length rows) EXECUTE_SUCCESS, t') \<and>
        numRows t' = numRows t + length rows"
proof (induction rows arbitrary: t)
  case Nil
  then show ?case by simp
next
  case (Cons r rows)
  then have lt: "numRows t < TABLE_MAX_ROWS" by simp
  obtain t1 where t1: "executeInsertStatement mem r t = Inr (EXECUTE_SUCCESS, t1)"
    "numRows t1 = numRows t + 1"
    using executeInsertStatement_eq [OF lt, of mem r] by simp
  with Cons.prems have "numRows t1 + length rows \<le> TABLE_MAX_ROWS" by simp
  from Cons.IH [OF this] t1 show ?case by auto
qed

lemma numRows_openDatabase_empty: "numRows (openDatabase []) = 0"
  by (simp add: openDatabase_def openPager_def Let_def)


section \<open>The concrete tables\<close>

lemma length_page1: "length page1 = PAGE_SIZE"
proof -
  have "(0::nat) + ROW_SIZE \<le> length (replicate PAGE_SIZE (1::byte))"
    by (simp add: ROW_SIZE_val PAGE_SIZE_def)
  with valid_row0 have eq: "page1 = memcpy_to (replicate PAGE_SIZE 1) 0 (row_bytes row0)"
    unfolding page1_def by (intro serializeRow_memcpy) (simp_all add: valid_row_def)
  have "length (row_bytes row0) = ROW_SIZE"
    using valid_row0 by (simp add: length_row_bytes valid_row_def)
  then show ?thesis
    unfolding eq by (simp add: length_memcpy_to ROW_SIZE_val PAGE_SIZE_def)
qed

lemma page_sized_table1: "page_sized (pager table1)"
  by (auto simp: page_sized_iff table1_def openPager_def length_page1 split: if_splits)


section \<open>Tables that hold a list of rows\<close>

lemma holds_rows_insert:
  assumes h: "holds_rows t rows" and lt: "length rows < TABLE_MAX_ROWS" and r: "row_sized r"
  shows "\<exists>t'. executeInsertStatement mem r t = Inr (EXECUTE_SUCCESS, t') \<and>
              holds_rows t' (rows @ [r]) \<and> fd (pager t') = fd (pager t)"
proof -
  let ?n = "numRows t"
  let ?p = "fst (row_address ?n)"
  let ?off = "snd (row_address ?n)"
  let ?page = "fetched mem (pager t) ?p"
  let ?page' = "serializeRow r ?page ?off"
  let ?t' = "\<lparr> numRows = ?n + 1, pager = (pager t)\<lparr>pages := (pages (pager t))(?p \<mapsto> ?page')\<rparr> \<rparr>"
  from h have n: "?n = length rows" and ps: "page_sized (pager t)"
    and slots: "\<And>i. i < length rows \<Longrightarrow> \<exists>page. pages (pager t) (fst (row_address i)) = Some page \<and>
        bytes_at page (snd (row_address i)) ROW_SIZE = row_bytes (rows ! i)"
    by (simp_all add: holds_rows_def)
  have nlt: "?n < TABLE_MAX_ROWS" using lt n by simp
  have p: "?p < TABLE_MAX_PAGES" using nlt by (rule row_address_page)
  have lp: "length ?page = PAGE_SIZE" using p ps by (rule length_fetched)
  have fit: "?off + ROW_SIZE \<le> length ?page" using row_address_offset [of ?n] lp by simp
  have ser: "?page' = memcpy_to ?page ?off (row_bytes r)"
    using r fit by (rule serializeRow_memcpy)
  have lrb: "length (row_bytes r) = ROW_SIZE" using r by (rule length_row_bytes)
  have fit': "?off + length (row_bytes r) \<le> length ?page" using fit lrb by simp
  have lp': "length ?page' = PAGE_SIZE"
    unfolding ser using fit' lp by (simp add: length_memcpy_to)
  have ins: "executeInsertStatement mem r t = Inr (EXECUTE_SUCCESS, ?t')"
    using nlt by (simp add: executeInsertStatement_eq)
  have new: "bytes_at ?page' ?off ROW_SIZE = row_bytes r"
    unfolding ser using bytes_at_memcpy_to_same [OF fit'] lrb by simp
  have sized: "page_sized (pager ?t')"
    using page_sized_upd [OF ps lp'] by simp
  have slot: "\<exists>page. pages (pager ?t') (fst (row_address i)) = Some page \<and>
        bytes_at page (snd (row_address i)) ROW_SIZE = row_bytes ((rows @ [r]) ! i)"
    if i: "i < length (rows @ [r])" for i
  proof (cases "i < length rows")
    case True
    from slots [OF True] obtain q where
      q: "pages (pager t) (fst (row_address i)) = Some q"
         "bytes_at q (snd (row_address i)) ROW_SIZE = row_bytes (rows ! i)" by blast
    show ?thesis
    proof (cases "fst (row_address i) = ?p")
      case same: True
      have "?page = q" using p q(1) same by (simp add: fetched_resident)
      moreover have "snd (row_address i) + ROW_SIZE \<le> ?off"
        using True same n by (intro row_address_same_page) simp_all
      then have "bytes_at ?page' (snd (row_address i)) ROW_SIZE = bytes_at ?page (snd (row_address i)) ROW_SIZE"
        unfolding ser using fit' by (intro bytes_at_memcpy_to_other) simp_all
      ultimately show ?thesis using q(2) same True by (simp add: nth_append)
    next
      case False
      then show ?thesis using q True by (simp add: nth_append)
    qed
  next
    case False
    with i have "i = length rows" by simp
    then show ?thesis using new n by simp
  qed
  have "holds_rows ?t' (rows @ [r])"
    unfolding holds_rows_def using n sized slot by simp
  then show ?thesis using ins by (intro exI [of _ ?t']) simp
qed

lemma holds_rows_insert_rows:
  assumes "holds_rows t rows" and "length rows + length new \<le> TABLE_MAX_ROWS"
    and "\<forall>r \<in> set new. row_sized r"
  shows "\<exists>t'. insert_rows mem new t = Inr (replicate (length new) EXECUTE_SUCCESS, t') \<and>
              holds_rows t' (rows @ new) \<and> fd (pager t') = fd (pager t)"
  using assms
proof (induction new arbitrary: t rows)
  case Nil
  then show ?case by simp
next
  case (Cons r new)
  from Cons.prems have lt: "length rows < TABLE_MAX_ROWS" and r: "row_sized r" by simp_all
  from holds_rows_insert [OF Cons.prems(1) lt r, of mem] obtain t1 where
    t1: "executeInsertStatement mem r t = Inr (EXECUTE_SUCCESS, t1)"
        "holds_rows t1 (rows @ [r])" "fd (pager t1) = fd (pager t)" by blast
  from Cons.prems have "length (rows @ [r]) + length new \<le> TABLE_MAX_ROWS"
    and "\<forall>r \<in> set new. row_sized r" by simp_all
  from Cons.IH [OF t1(2) this] obtain t2 where
    "insert_rows mem new t1 = Inr (replicate (length new) EXECUTE_SUCCESS, t2)"
    "holds_rows t2 ((rows @ [r]) @ new)" "fd (pager t2) = fd (pager t1)" by blast
  with t1 show ?case by simp
qed

lemma holds_rows_rowSlot:
  assumes h: "holds_rows t rows" and i: "i < length rows" and le: "length rows \<le> TABLE_MAX_ROWS"
    and r: "row_sized (rows ! i)"
  shows "rowSlot mem t i = Inr (t, fst (row_address i), snd (row_address i))"
    and "deserializeRow (page_of t (fst (row_address i))) (snd (row_address i)) = rows ! i"
proof -
  from h i obtain q where
    q: "pages (pager t) (fst (row_address i)) = Some q"
       "bytes_at q (snd (row_address i)) ROW_SIZE = row_bytes (rows ! i)"
    by (auto simp: holds_rows_def)
  have i': "i < TABLE_MAX_ROWS" using i le by simp
  have p: "fst (row_address i) < TABLE_MAX_PAGES" using i' by (rule row_address_page)
  have f: "fetched mem (pager t) (fst (row_address i)) = q"
    using p q(1) by (rule fetched_resident)
  have "(pages (pager t))(fst (row_address i) \<mapsto> q) = pages (pager t)"
    using q(1) by (rule map_upd_triv)
  then show "rowSlot mem t i = Inr (t, fst (row_address i), snd (row_address i))"
    by (simp add: rowSlot_eq [OF i'] f)
  show "deserializeRow (page_of t (fst (row_address i))) (snd (row_address i)) = rows ! i"
    using deserializeRow_bytes_at [of q "snd (row_address i)"] q r
    by (simp add: page_of_def deserializeRow_row_bytes)
qed

lemma holds_rows_select_loop:
  assumes "holds_rows t rows" and "length rows \<le> TABLE_MAX_ROWS" and "\<forall>r \<in> set rows. row_sized r"
  shows "i + n = length rows \<Longrightarrow> select_loop mem t i n = Inr (drop i rows, t)"
proof (induction n arbitrary: i)
  case 0
  then show ?case by simp
next
  case (Suc n)
  then have i: "i < length rows" by simp
  with assms(3) have r: "row_sized (rows ! i)" by simp
  from Suc.prems have "(i + 1) + n = length rows" by simp
  from Suc.IH [OF this] holds_rows_rowSlot(1) [OF assms(1) i assms(2) r, where mem = mem]
    holds_rows_rowSlot(2) [OF assms(1) i assms(2) r]
  show ?case using i by (simp add: Cons_nth_drop_Suc split_beta)
qed

lemma holds_rows_open: "numRows (openDatabase file) = 0 \<Longrightarrow> holds_rows (openDatabase file) []"
  by (simp add: holds_rows_def page_sized_iff) (simp add: openDatabase_def openPager_def Let_def)


section \<open>The file written by closeDatabase\<close>


lemma write_at_end: "length file = off \<Longrightarrow> write_at file off data = file @ data"
  by (simp add: write_at_def)

lemma bytes_at_whole: "length xs = n \<Longrightarrow> bytes_at xs 0 n = xs"
  by (simp add: bytes_at_def)

lemma bytes_at_append_left: "off + n \<le> length xs \<Longrightarrow> bytes_at (xs @ ys) off n = bytes_at xs off n"
  by (simp add: bytes_at_def)

lemma bytes_at_append_right: "bytes_at (xs @ ys) (length xs + b) n = bytes_at ys b n"
  by (simp add: bytes_at_def)

lemma page_offset_no_wrap: "i < TABLE_MAX_PAGES \<Longrightarrow> (i * PAGE_SIZE) mod 2 ^ 32 = i * PAGE_SIZE"
  by (simp add: TABLE_MAX_PAGES_val PAGE_SIZE_def)

lemma flushPager_append:
  assumes "i < TABLE_MAX_PAGES" "pages pg i = Some page" "length (fd pg) = i * PAGE_SIZE"
  shows "flushPager pg i sz = Inr (pg\<lparr>fd := fd pg @ bytes_at page 0 sz\<rparr>)"
  using assms page_offset_no_wrap [OF assms(1)]
  by (simp add: flushPager_def page_slot_def write_at_end)

lemma flush_full_pages_from:
  assumes "k \<le> TABLE_MAX_PAGES" and "i \<le> k" and "length (fd pg) = i * PAGE_SIZE"
    and "\<forall>j. i \<le> j \<and> j < k \<longrightarrow> (\<exists>page. pages pg j = Some page \<and> length page = PAGE_SIZE)"
  shows "\<exists>pg'. flush_full_pages pg [i..<k] = Inr pg' \<and> length (fd pg') = k * PAGE_SIZE \<and>
     (\<forall>j < i. bytes_at (fd pg') (j * PAGE_SIZE) PAGE_SIZE = bytes_at (fd pg) (j * PAGE_SIZE) PAGE_SIZE) \<and>
     (\<forall>j. i \<le> j \<and> j < k \<longrightarrow> pages pg j = Some (bytes_at (fd pg') (j * PAGE_SIZE) PAGE_SIZE)) \<and>
     (\<forall>j \<ge> k. pages pg' j = pages pg j)"
  using assms
proof (induction "k - i" arbitrary: i pg)
  case 0
  then have "i = k" by simp
  with 0 show ?case by auto
next
  case (Suc d)
  then have ik: "i < k" by simp
  then have up: "[i..<k] = i # [Suc i..<k]" by (rule upt_conv_Cons)
  from Suc.prems ik obtain page where page: "pages pg i = Some page" "length page = PAGE_SIZE"
    by blast
  have i100: "i < TABLE_MAX_PAGES" using ik Suc.prems(1) by simp
  let ?pg1 = "pg\<lparr>fd := fd pg @ page, pages := (pages pg)(i := None)\<rparr>"
  have fl: "flushPager pg i PAGE_SIZE = Inr (pg\<lparr>fd := fd pg @ page\<rparr>)"
    using flushPager_append [OF i100 page(1) Suc.prems(3), of PAGE_SIZE] page(2)
    by (simp add: bytes_at_whole)
  have step: "flush_full_pages pg [i..<k] = flush_full_pages ?pg1 [Suc i..<k]"
    unfolding up using page(1) i100 fl by (simp add: page_slot_def)
  have d: "d = k - Suc i" using Suc.hyps(2) by simp
  have l1: "length (fd ?pg1) = Suc i * PAGE_SIZE" using Suc.prems(3) page(2) by simp
  have r1: "\<forall>j. Suc i \<le> j \<and> j < k \<longrightarrow> (\<exists>page. pages ?pg1 j = Some page \<and> length page = PAGE_SIZE)"
    using Suc.prems(4) by simp
  from Suc.hyps(1) [OF d Suc.prems(1) _ l1 r1] ik obtain pg' where
    pg': "flush_full_pages ?pg1 [Suc i..<k] = Inr pg'" "length (fd pg') = k * PAGE_SIZE"
      "\<forall>j < Suc i. bytes_at (fd pg') (j * PAGE_SIZE) PAGE_SIZE = bytes_at (fd ?pg1) (j * PAGE_SIZE) PAGE_SIZE"
      "\<forall>j. Suc i \<le> j \<and> j < k \<longrightarrow> pages ?pg1 j = Some (bytes_at (fd pg') (j * PAGE_SIZE) PAGE_SIZE)"
      "\<forall>j \<ge> k. pages pg' j = pages ?pg1 j"
    by auto
  have a: "bytes_at (fd pg') (j * PAGE_SIZE) PAGE_SIZE = bytes_at (fd pg) (j * PAGE_SIZE) PAGE_SIZE"
    if "j < i" for j
  proof -
    from that have "Suc j \<le> i" by simp
    then have "Suc j * PAGE_SIZE \<le> i * PAGE_SIZE" by (rule mult_le_mono1)
    then have "j * PAGE_SIZE + PAGE_SIZE \<le> length (fd pg)" using Suc.prems(3) by simp
    then have "bytes_at (fd pg @ page) (j * PAGE_SIZE) PAGE_SIZE = bytes_at (fd pg) (j * PAGE_SIZE) PAGE_SIZE"
      by (rule bytes_at_append_left)
    with pg'(3) that show ?thesis by simp
  qed
  have "bytes_at (fd pg @ page) (length (fd pg) + 0) PAGE_SIZE = bytes_at page 0 PAGE_SIZE"
    by (rule bytes_at_append_right)
  then have b0: "bytes_at (fd pg') (i * PAGE_SIZE) PAGE_SIZE = page"
    using pg'(3) Suc.prems(3) page(2) by (simp add: bytes_at_whole)
  have b: "pages pg j = Some (bytes_at (fd pg') (j * PAGE_SIZE) PAGE_SIZE)" if "i \<le> j" "j < k" for j
  proof (cases "j = i")
    case True
    then show ?thesis using b0 page(1) by simp
  next
    case False
    with that have "Suc i \<le> j" by simp
    with pg'(4) that(2) False show ?thesis by simp
  qed
  have c: "\<forall>j \<ge> k. pages pg' j = pages pg j" using pg'(5) ik by simp
  show ?case using step pg'(1,2) a b c by simp
qed



lemma holds_rows_resident:
  assumes h: "holds_rows t rows" and le: "length rows \<le> TABLE_MAX_ROWS"
    and j: "j * ROWS_PER_PAGE < length rows"
  shows "\<exists>page. pages (pager t) j = Some page \<and> length page = PAGE_SIZE"
proof -
  have a: "fst (row_address (j * ROWS_PER_PAGE)) = j"
    by (simp add: row_address_def ROWS_PER_PAGE_val)
  have "j * ROWS_PER_PAGE < TABLE_MAX_ROWS" using j le by simp
  from row_address_page [OF this] a have j100: "j < TABLE_MAX_PAGES" by simp
  from h j a obtain page where page: "pages (pager t) j = Some page"
    by (fastforce simp: holds_rows_def)
  moreover from h have "page_sized (pager t)" by (simp add: holds_rows_def)
  with j100 page have "length page = PAGE_SIZE" by (simp add: page_sized_iff)
  ultimately show ?thesis by simp
qed

lemma holds_rows_file_slot:
  assumes h: "holds_rows t rows" and i: "i < length rows"
    and pg: "pages (pager t) (fst (row_address i)) = Some (bytes_at f (fst (row_address i) * PAGE_SIZE) PAGE_SIZE)"
  shows "bytes_at f (fst (row_address i) * PAGE_SIZE + snd (row_address i)) ROW_SIZE = row_bytes (rows ! i)"
proof -
  from h i pg have "bytes_at (bytes_at f (fst (row_address i) * PAGE_SIZE) PAGE_SIZE)
      (snd (row_address i)) ROW_SIZE = row_bytes (rows ! i)"
    by (fastforce simp: holds_rows_def)
  then show ?thesis
    using bytes_at_bytes_at [OF row_address_offset [of i], of f "fst (row_address i) * PAGE_SIZE"]
    by simp
qed

lemma closeDatabase_layout:
  assumes h: "holds_rows t rows" and le: "length rows \<le> TABLE_MAX_ROWS" and e: "fd (pager t) = []"
  shows "\<exists>file. closeDatabase t = Inr file \<and>
     length file = (length rows div ROWS_PER_PAGE) * PAGE_SIZE + (length rows mod ROWS_PER_PAGE) * ROW_SIZE \<and>
     (\<forall>i < length rows.
        bytes_at file (fst (row_address i) * PAGE_SIZE + snd (row_address i)) ROW_SIZE = row_bytes (rows ! i))"
proof -
  let ?N = "length rows"
  let ?k = "?N div ROWS_PER_PAGE"
  let ?m = "?N mod ROWS_PER_PAGE"
  from h have n: "numRows t = ?N" by (simp add: holds_rows_def)
  have k: "?k \<le> TABLE_MAX_PAGES"
    using le by (simp add: TABLE_MAX_ROWS_val ROWS_PER_PAGE_val TABLE_MAX_PAGES_val)
  have res: "\<forall>j. 0 \<le> j \<and> j < ?k \<longrightarrow> (\<exists>page. pages (pager t) j = Some page \<and> length page = PAGE_SIZE)"
  proof (intro allI impI)
    fix j assume "0 \<le> j \<and> j < ?k"
    then have "j * ROWS_PER_PAGE < ?N" by (simp add: ROWS_PER_PAGE_val less_mult_imp_div_less div_greater_zero_iff)
    with h le show "\<exists>page. pages (pager t) j = Some page \<and> length page = PAGE_SIZE"
      by (rule holds_rows_resident)
  qed
  from flush_full_pages_from [OF k _ _ res] e obtain pg' where
    pg': "flush_full_pages (pager t) [0..<?k] = Inr pg'" "length (fd pg') = ?k * PAGE_SIZE"
      "\<forall>j. 0 \<le> j \<and> j < ?k \<longrightarrow> pages (pager t) j = Some (bytes_at (fd pg') (j * PAGE_SIZE) PAGE_SIZE)"
      "\<forall>j \<ge> ?k. pages pg' j = pages (pager t) j"
    by auto
  have full: "bytes_at (fd pg') (fst (row_address i) * PAGE_SIZE + snd (row_address i)) ROW_SIZE
      = row_bytes (rows ! i)" if "i < ?N" "fst (row_address i) < ?k" for i
    using holds_rows_file_slot [OF h that(1), where f = "fd pg'"] pg'(3) that(2) by simp
  have pi: "fst (row_address i) \<le> ?k" if "i < ?N" for i
    using that by (simp add: row_address_def div_le_mono)
  show ?thesis
  proof (cases "?m = 0")
    case True
    have "fst (row_address i) < ?k" if "i < ?N" for i
    proof -
      have "?N = ?k * ROWS_PER_PAGE" using True by (metis add.right_neutral div_mult_mod_eq mult.commute)
      with that have "i < ?k * ROWS_PER_PAGE" by simp
      then show ?thesis by (simp add: row_address_def ROWS_PER_PAGE_val less_mult_imp_div_less)
    qed
    with full have "\<forall>i < ?N. bytes_at (fd pg') (fst (row_address i) * PAGE_SIZE + snd (row_address i)) ROW_SIZE
      = row_bytes (rows ! i)" by simp
    moreover have "closeDatabase t = Inr (fd pg')"
      using True pg'(1) by (simp add: closeDatabase_def n)
    ultimately show ?thesis using pg'(2) True by simp
  next
    case False
    then have m: "?m > 0" by simp
    have Nk: "?k * ROWS_PER_PAGE < ?N"
      using m by (metis div_mult_mod_eq less_add_same_cancel1)
    from holds_rows_resident [OF h le Nk] obtain page where
      page: "pages (pager t) ?k = Some page" "length page = PAGE_SIZE" by blast
    have Nlt: "?N < TABLE_MAX_ROWS"
    proof (rule ccontr)
      assume "\<not> ?N < TABLE_MAX_ROWS"
      with le have "?N = 1300" by (simp add: TABLE_MAX_ROWS_val)
      with False show False by (simp add: ROWS_PER_PAGE_val)
    qed
    have k100: "?k < TABLE_MAX_PAGES"
      using row_address_page [OF Nlt] by (simp add: row_address_def)
    have page': "pages pg' ?k = Some page" using pg'(4) page(1) by simp
    let ?X = "bytes_at page 0 (?m * ROW_SIZE)"
    have lX: "length ?X = ?m * ROW_SIZE"
      using row_address_offset [of ?N] page(2) by (simp add: length_bytes_at row_address_def)
    have fl: "flushPager pg' ?k (?m * ROW_SIZE) = Inr (pg'\<lparr>fd := fd pg' @ ?X\<rparr>)"
      using k100 page' pg'(2) by (rule flushPager_append)
    have cl: "closeDatabase t = Inr (fd pg' @ ?X)"
      using m pg'(1) page' k100 fl by (simp add: closeDatabase_def n page_slot_def)
    have slot: "bytes_at (fd pg' @ ?X) (fst (row_address i) * PAGE_SIZE + snd (row_address i)) ROW_SIZE
      = row_bytes (rows ! i)" if i: "i < ?N" for i
    proof (cases "fst (row_address i) < ?k")
      case True
      then have "Suc (fst (row_address i)) \<le> ?k" by simp
      then have "Suc (fst (row_address i)) * PAGE_SIZE \<le> ?k * PAGE_SIZE" by (rule mult_le_mono1)
      with row_address_offset [of i] pg'(2)
      have "fst (row_address i) * PAGE_SIZE + snd (row_address i) + ROW_SIZE \<le> length (fd pg')"
        by simp
      then show ?thesis using full [OF i True] by (simp add: bytes_at_append_left)
    next
      case False
      with pi [OF i] have eq: "fst (row_address i) = ?k" by simp
      then have same: "fst (row_address i) = fst (row_address ?N)" by (simp add: row_address_def)
      from row_address_same_page [OF i same]
      have fit: "snd (row_address i) + ROW_SIZE \<le> ?m * ROW_SIZE" by (simp add: row_address_def)
      from h i eq page(1) have "bytes_at page (snd (row_address i)) ROW_SIZE = row_bytes (rows ! i)"
        by (fastforce simp: holds_rows_def)
      then have "bytes_at ?X (snd (row_address i)) ROW_SIZE = row_bytes (rows ! i)"
        using bytes_at_bytes_at [OF fit, of page 0] by simp
      then show ?thesis
        using bytes_at_append_right [of "fd pg'" ?X "snd (row_address i)" ROW_SIZE] pg'(2) eq
        by simp
    qed
    show ?thesis using cl lX pg'(2) slot by simp
  qed
qed

lemma fd_openDatabase: "fd (pager (openDatabase fl)) = fl"
  by (simp add: openDatabase_def openPager_def Let_def)

lemma session_file_layout:
  assumes "length rows \<le> TABLE_MAX_ROWS" and "\<forall>r \<in> set rows. row_sized r"
  shows "\<exists>fl. session_file mem rows [] = Inr fl \<and>
     length fl = (length rows div ROWS_PER_PAGE) * PAGE_SIZE + (length rows mod ROWS_PER_PAGE) * ROW_SIZE \<and>
     (\<forall>i < length rows.
        bytes_at fl (fst (row_address i) * PAGE_SIZE + snd (row_address i)) ROW_SIZE = row_bytes (rows ! i))"
proof -
  from holds_rows_insert_rows [OF holds_rows_open [OF numRows_openDatabase_empty], of rows mem] assms
  obtain t where t: "insert_rows mem rows (openDatabase []) = Inr (replicate (length rows) EXECUTE_SUCCESS, t)"
    "holds_rows t rows" "fd (pager t) = []"
    by (auto simp: fd_openDatabase)
  from closeDatabase_layout [OF t(2) assms(1) t(3)] t(1) show ?thesis
    by (simp add: session_file_def)
qed

lemma concat_slots:
  assumes "length fl = length xs * n" and "\<forall>x \<in> set xs. length x = n"
    and "\<forall>i < length xs. bytes_at fl (i * n) n = xs ! i"
  shows "fl = concat xs"
  using assms
proof (induction xs arbitrary: fl)
  case Nil
  then show ?case by simp
next
  case (Cons x xs)
  have hd: "take n fl = x" using Cons.prems(3) by (auto simp: bytes_at_def)
  have l: "length (drop n fl) = length xs * n" using Cons.prems(1) by simp
  have "bytes_at (drop n fl) (i * n) n = xs ! i" if "i < length xs" for i
  proof -
    from that Cons.prems(3) have "bytes_at fl (Suc i * n) n = (x # xs) ! Suc i" by auto
    then show ?thesis by (simp add: bytes_at_def add.commute)
  qed
  with Cons.IH [OF l] Cons.prems(2) have "drop n fl = concat xs" by simp
  with hd show ?case by (metis append_take_drop_id concat.simps(2))
qed

lemma select_loop_length: "select_loop mem t i n = Inr (rs, t') \<Longrightarrow> length rs = n"
proof (induction n arbitrary: t i rs)
  case 0
  then show ?case by simp
next
  case (Suc n)
  then show ?case by (auto split: sum.splits prod.splits)
qed

section \<open>The claims\<close>

text \<open>
  C6. Codec round trip: for every row whose \<open>username\<close> and \<open>email\<close> arrays hold
  NUL-terminated strings of at most 32 and 255 bytes, decoding the encoded row gives the
  row back; the encoding is \<open>ROW_SIZE\<close> bytes, the 4 bytes of \<open>id\<close> followed by the
  33 bytes of \<open>username\<close> and the 256 bytes of \<open>email\<close>.
\<close>

theorem codec_round_trip:
  "valid_row r \<Longrightarrow> decode (encode r) = r \<and> length (encode r) = ROW_SIZE \<and>
     encode r = id_bytes (id r) @ username r @ email r"
  by (simp add: valid_row_def decode_def encode_row_bytes deserializeRow_row_bytes
      length_row_bytes) (simp add: row_bytes_def)

theorem codec_round_trip_witness: "valid_row row0 \<and> decode (encode row0) = row0"
  using codec_round_trip [of row0] valid_row0 by blast

text \<open>
  C7. Addressing: \<open>row_address\<close> is injective, page number times \<open>ROWS_PER_PAGE\<close>
  plus byte offset divided by \<open>ROW_SIZE\<close> gives the row index back, and with the row
  size 293 and 13 rows per page, row index 13 is at page 1, offset 0.
\<close>

theorem row_address_inverse:
  "inj row_address \<and>
   (\<forall>i. fst (row_address i) * ROWS_PER_PAGE + snd (row_address i) div ROW_SIZE = i) \<and>
   (ROW_SIZE = 293 \<and> ROWS_PER_PAGE = 13 \<and> row_address 13 = (1, 0))"
proof -
  have inv: "fst (row_address i) * ROWS_PER_PAGE + snd (row_address i) div ROW_SIZE = i" for i
    by (simp add: row_address_def ROW_SIZE_val ROWS_PER_PAGE_val)
  have "inj row_address"
  proof (rule injI)
    fix i j assume eq: "row_address i = row_address j"
    have "i = fst (row_address i) * ROWS_PER_PAGE + snd (row_address i) div ROW_SIZE"
      by (rule inv [symmetric])
    also have "\<dots> = fst (row_address j) * ROWS_PER_PAGE + snd (row_address j) div ROW_SIZE"
      by (simp only: eq)
    also have "\<dots> = j" by (rule inv)
    finally show "i = j" .
  qed
  moreover have "row_address 13 = (1, 0)"
    by (simp add: row_address_def ROW_SIZE_val ROWS_PER_PAGE_val)
  ultimately show ?thesis
    using inv ROW_SIZE_val ROWS_PER_PAGE_val by blast
qed

theorem row_address_inverse_witness:
  "row_address 5 \<noteq> row_address 18 \<and> row_address 18 = (1, 1465)"
proof -
  have "inj row_address" using row_address_inverse by blast
  then have "row_address 5 \<noteq> row_address 18" by (auto dest: injD)
  moreover have "row_address 18 = (1, 1465)"
    by (simp add: row_address_def ROW_SIZE_val ROWS_PER_PAGE_val)
  ultimately show ?thesis by blast
qed


text \<open>
  C3. Page-number bounds check. The claim is that \<open>getPage\<close> takes its out-of-bounds
  exit exactly for page numbers \<open>\<ge> TABLE_MAX_PAGES\<close>. The guard of the source is
  \<open>pageNum > TABLE_MAX_PAGES\<close>: the exit is taken exactly for page numbers above 100,
  and page number 100 passes the guard and indexes the array of 100 slots outside its
  range.
\<close>

theorem getPage_bound_check:
  "(getPage mem pg pageNum = Inl PageOutOfBounds) = (pageNum > TABLE_MAX_PAGES) \<and>
   getPage mem pg TABLE_MAX_PAGES = Inl ArrayIndexOutOfRange"
proof -
  have "getPage mem pg pageNum \<noteq> Inl PageOutOfBounds" if "pageNum \<le> TABLE_MAX_PAGES"
    using that by (simp add: getPage_def page_slot_def Let_def split: option.splits)
  moreover have "getPage mem pg pageNum = Inl PageOutOfBounds" if "pageNum > TABLE_MAX_PAGES"
    using that by (simp add: getPage_def)
  moreover have "getPage mem pg TABLE_MAX_PAGES = Inl ArrayIndexOutOfRange"
    by (simp add: getPage_def page_slot_def)
  ultimately show ?thesis by (metis not_le)
qed

text \<open>
  C4, as stated, fails: the buffer of a cache miss comes from \<open>malloc\<close>, which does not
  clear it. With a memory block of bytes 1 and an empty file, page 0 is not resident, no
  byte is read, and \<open>getPage\<close> returns a buffer of \<open>PAGE_SIZE\<close> bytes 1.
\<close>

theorem getPage_miss_not_zeroed:
  "getPage mem1 (openPager []) 0 =
     Inr ((openPager [])\<lparr>pages := (pages (openPager []))(0 \<mapsto> replicate PAGE_SIZE 1)\<rparr>,
          replicate PAGE_SIZE 1) \<and>
   pages (openPager []) 0 = None \<and> (0::nat) < TABLE_MAX_PAGES \<and>
   bytes_at (fd (openPager [])) (0 * PAGE_SIZE) PAGE_SIZE = [] \<and> (1::byte) \<noteq> 0"
proof -
  have "mem1 0 = (\<lambda>k. 1)" by (rule ext) (simp add: mem1_def)
  then have "malloc_page mem1 0 = replicate PAGE_SIZE 1"
    by (simp add: malloc_page_def map_replicate_const)
  then have "fetched mem1 (openPager []) 0 = replicate PAGE_SIZE 1"
    by (simp add: fetched_miss TABLE_MAX_PAGES_val openPager_def read_page_def
        memcpy_to_def bytes_at_def)
  then show ?thesis
    using getPage_eq [of 0 mem1 "openPager []"]
    by (simp add: TABLE_MAX_PAGES_val) (simp add: openPager_def bytes_at_def)
qed

text \<open>
  C4, amended. For every page number below \<open>TABLE_MAX_PAGES\<close> whose slot is not
  resident, \<open>getPage\<close> allocates a buffer of \<open>PAGE_SIZE\<close> bytes before any file read,
  makes it resident and returns it; the front of the buffer holds the bytes read from the
  file (none when the page number is beyond the page count computed from \<open>fLen\<close>), and
  every byte beyond them is the byte the allocated block had, which nothing sets to zero.
\<close>

theorem getPage_miss_buffer:
  assumes "pageNum < TABLE_MAX_PAGES" and "pages pg pageNum = None"
  shows "\<exists>page rd.
     getPage mem pg pageNum = Inr (pg\<lparr>pages := (pages pg)(pageNum \<mapsto> page)\<rparr>, page) \<and>
     length page = PAGE_SIZE \<and>
     rd = (if pageNum \<le> (if fLen pg mod PAGE_SIZE \<noteq> 0 then fLen pg div PAGE_SIZE + 1
                          else fLen pg div PAGE_SIZE)
           then bytes_at (fd pg) (pageNum * PAGE_SIZE) PAGE_SIZE else []) \<and>
     bytes_at page 0 (length rd) = rd \<and>
     (\<forall>k. length rd \<le> k \<and> k < PAGE_SIZE \<longrightarrow> page ! k = mem pageNum k)"
proof -
  let ?rd = "if pageNum \<le> (if fLen pg mod PAGE_SIZE \<noteq> 0 then fLen pg div PAGE_SIZE + 1
                          else fLen pg div PAGE_SIZE)
           then bytes_at (fd pg) (pageNum * PAGE_SIZE) PAGE_SIZE else []"
  have lrd: "length ?rd \<le> PAGE_SIZE" by (simp add: length_bytes_at)
  have f: "fetched mem pg pageNum = memcpy_to (malloc_page mem pageNum) 0 ?rd"
    using assms by (simp add: fetched_miss read_page_def memcpy_to_def)
  have l: "length (fetched mem pg pageNum) = PAGE_SIZE"
    unfolding f using lrd by (simp add: length_memcpy_to length_malloc_page)
  have p: "bytes_at (fetched mem pg pageNum) 0 (length ?rd) = ?rd"
    unfolding f using lrd bytes_at_memcpy_to_same [of 0 ?rd "malloc_page mem pageNum"]
    by (simp add: length_malloc_page)
  have r: "fetched mem pg pageNum ! k = mem pageNum k" if "length ?rd \<le> k" "k < PAGE_SIZE" for k
    unfolding f using that lrd nth_memcpy_to [of 0 ?rd "malloc_page mem pageNum" k]
    by (simp add: length_malloc_page) (simp add: malloc_page_def)
  show ?thesis
    using getPage_eq [OF assms(1), of mem pg] l p r by blast
qed

theorem getPage_miss_buffer_witness:
  "\<exists>page. getPage mem1 (openPager [5, 6]) 0 =
       Inr ((openPager [5, 6])\<lparr>pages := (pages (openPager [5, 6]))(0 \<mapsto> page)\<rparr>, page) \<and>
     length page = PAGE_SIZE \<and> bytes_at page 0 2 = [5, 6] \<and> page ! 2 = 1"
proof -
  have a: "(0::nat) < TABLE_MAX_PAGES" by (simp add: TABLE_MAX_PAGES_val)
  have b: "pages (openPager [5, 6]) 0 = None" by (simp add: openPager_def)
  have c: "(if (0::nat) \<le> (if fLen (openPager [5, 6]) mod PAGE_SIZE \<noteq> 0
                          then fLen (openPager [5, 6]) div PAGE_SIZE + 1
                          else fLen (openPager [5, 6]) div PAGE_SIZE)
           then bytes_at (fd (openPager [5, 6])) (0 * PAGE_SIZE) PAGE_SIZE else []) = [5, 6]"
    by (simp add: openPager_def bytes_at_def PAGE_SIZE_def)
  have d: "mem1 0 2 = 1" "(2::nat) < PAGE_SIZE" by (simp_all add: mem1_def PAGE_SIZE_def)
  from getPage_miss_buffer [OF a b, of mem1] obtain page rd where
    h: "getPage mem1 (openPager [5, 6]) 0 =
       Inr ((openPager [5, 6])\<lparr>pages := (pages (openPager [5, 6]))(0 \<mapsto> page)\<rparr>, page)"
      "length page = PAGE_SIZE"
      "rd = (if (0::nat) \<le> (if fLen (openPager [5, 6]) mod PAGE_SIZE \<noteq> 0
                          then fLen (openPager [5, 6]) div PAGE_SIZE + 1
                          else fLen (openPager [5, 6]) div PAGE_SIZE)
           then bytes_at (fd (openPager [5, 6])) (0 * PAGE_SIZE) PAGE_SIZE else [])"
      "bytes_at page 0 (length rd) = rd"
      "\<forall>k. length rd \<le> k \<and> k < PAGE_SIZE \<longrightarrow> page ! k = mem1 0 k"
    by blast
  from h(3) c have rd: "rd = [5, 6]" by simp
  with h(4) have "bytes_at page 0 2 = [5, 6]" by (simp add: numeral_2_eq_2)
  moreover from h(5) rd d have "page ! 2 = 1" by simp
  ultimately show ?thesis using h(1,2) by blast
qed


text \<open>
  C10. In-bounds page access: in a table with \<open>numRows \<le> TABLE_MAX_ROWS\<close>, the page
  number of every row index below \<open>numRows\<close> (the ones \<open>executeSelectStatement\<close>
  visits), and of \<open>numRows\<close> itself when \<open>numRows < TABLE_MAX_ROWS\<close> (the one
  \<open>executeInsertStatement\<close> visits), is below \<open>TABLE_MAX_PAGES\<close>; \<open>getPage\<close> and
  \<open>rowSlot\<close> return there, and so do the two statements, without the out-of-bounds exit
  and without an access outside the slot array.
\<close>

theorem page_access_in_bounds:
  assumes "numRows t \<le> TABLE_MAX_ROWS"
  shows "(\<forall>i < numRows t. fst (row_address i) < TABLE_MAX_PAGES \<and>
            (\<exists>res. getPage mem (pager t) (fst (row_address i)) = Inr res) \<and>
            (\<exists>res. rowSlot mem t i = Inr res)) \<and>
         (numRows t < TABLE_MAX_ROWS \<longrightarrow>
            fst (row_address (numRows t)) < TABLE_MAX_PAGES \<and>
            (\<exists>res. getPage mem (pager t) (fst (row_address (numRows t))) = Inr res) \<and>
            (\<exists>res. rowSlot mem t (numRows t) = Inr res)) \<and>
         (\<exists>res. executeInsertStatement mem r t = Inr res) \<and>
         (\<exists>res. executeSelectStatement mem t = Inr res)"
proof -
  have a: "fst (row_address i) < TABLE_MAX_PAGES \<and>
            (\<exists>res. getPage mem (pager t) (fst (row_address i)) = Inr res) \<and>
            (\<exists>res. rowSlot mem t i = Inr res)" if "i < TABLE_MAX_ROWS" for i
    using that by (simp add: row_address_page getPage_eq rowSlot_eq)
  have b: "\<exists>res. executeInsertStatement mem r t = Inr res"
  proof (cases "numRows t < TABLE_MAX_ROWS")
    case True
    then show ?thesis by (simp add: executeInsertStatement_eq)
  next
    case False
    then show ?thesis by (simp add: executeInsertStatement_def)
  qed
  have c: "\<exists>res. executeSelectStatement mem t = Inr res"
    unfolding executeSelectStatement_def using assms by (intro select_loop_returns) simp
  show ?thesis using a b c assms by auto
qed

theorem page_access_in_bounds_witness:
  "numRows table14 \<le> TABLE_MAX_ROWS \<and> 13 < numRows table14 \<and> numRows table14 < TABLE_MAX_ROWS \<and>
   fst (row_address 13) < TABLE_MAX_PAGES \<and>
   (\<exists>res. rowSlot mem1 table14 13 = Inr res) \<and>
   (\<exists>res. rowSlot mem1 table14 (numRows table14) = Inr res) \<and>
   (\<exists>res. executeInsertStatement mem1 row0 table14 = Inr res) \<and>
   (\<exists>res. executeSelectStatement mem1 table14 = Inr res)"
proof -
  have a: "numRows table14 \<le> TABLE_MAX_ROWS" "13 < numRows table14" "numRows table14 < TABLE_MAX_ROWS"
    by (simp_all add: table14_def TABLE_MAX_ROWS_val)
  from page_access_in_bounds [OF a(1), of mem1 row0] a show ?thesis by blast
qed

text \<open>
  C5. Capacity: \<open>TABLE_MAX_ROWS\<close> inserts into the store opened on an empty file all
  succeed; an insert into a table with \<open>numRows = TABLE_MAX_ROWS\<close> returns
  \<open>EXECUTE_TABLE_FULL\<close> and the table (row count, pages, file) is the one before.
\<close>

theorem insert_capacity:
  "(length rows = TABLE_MAX_ROWS \<longrightarrow>
      (\<exists>t. insert_rows mem rows (openDatabase []) = Inr (replicate TABLE_MAX_ROWS EXECUTE_SUCCESS, t) \<and>
           numRows t = TABLE_MAX_ROWS \<and>
           executeInsertStatement mem r t = Inr (EXECUTE_TABLE_FULL, t))) \<and>
   (numRows t' = TABLE_MAX_ROWS \<longrightarrow> executeInsertStatement mem r t' = Inr (EXECUTE_TABLE_FULL, t'))"
proof -
  have full: "executeInsertStatement mem r u = Inr (EXECUTE_TABLE_FULL, u)"
    if "numRows u = TABLE_MAX_ROWS" for u
    using that by (simp add: executeInsertStatement_def)
  have "\<exists>t. insert_rows mem rows (openDatabase []) = Inr (replicate TABLE_MAX_ROWS EXECUTE_SUCCESS, t) \<and>
           numRows t = TABLE_MAX_ROWS"
    if "length rows = TABLE_MAX_ROWS"
    using insert_rows_count [of "openDatabase []" rows mem] that
    by (simp add: numRows_openDatabase_empty)
  with full show ?thesis by blast
qed

theorem insert_capacity_witness:
  "length (replicate TABLE_MAX_ROWS row0) = TABLE_MAX_ROWS \<and>
   (\<exists>t. insert_rows mem1 (replicate TABLE_MAX_ROWS row0) (openDatabase []) =
          Inr (replicate TABLE_MAX_ROWS EXECUTE_SUCCESS, t) \<and>
        executeInsertStatement mem1 row0 t = Inr (EXECUTE_TABLE_FULL, t)) \<and>
   numRows table_full = TABLE_MAX_ROWS \<and>
   executeInsertStatement mem1 row0 table_full = Inr (EXECUTE_TABLE_FULL, table_full)"
proof -
  have a: "length (replicate TABLE_MAX_ROWS row0) = TABLE_MAX_ROWS" by simp
  have b: "numRows table_full = TABLE_MAX_ROWS" by (simp add: table_full_def)
  from insert_capacity [of "replicate TABLE_MAX_ROWS row0" mem1 row0 table_full] a b
  show ?thesis by blast
qed

text \<open>
  C9. Frame of insert: in a table with \<open>numRows < TABLE_MAX_ROWS\<close> whose resident
  buffers have \<open>PAGE_SIZE\<close> bytes, the insert of a row succeeds, adds 1 to \<open>numRows\<close>,
  leaves the file and every other page slot as they were, and in the buffer of the page
  of \<open>row_address numRows\<close> (the resident buffer, or the one \<open>getPage\<close> loads)
  changes only the \<open>ROW_SIZE\<close> bytes from the offset of that address, which become
  the bytes of the row; the row decoded at every index below \<open>numRows\<close> is unchanged.
\<close>

theorem insert_frame:
  assumes "numRows t < TABLE_MAX_ROWS" and "page_sized (pager t)" and "row_sized r"
  shows "\<exists>t' page page'.
     executeInsertStatement mem r t = Inr (EXECUTE_SUCCESS, t') \<and>
     numRows t' = numRows t + 1 \<and>
     fd (pager t') = fd (pager t) \<and> fLen (pager t') = fLen (pager t) \<and>
     (\<forall>p. p \<noteq> fst (row_address (numRows t)) \<longrightarrow> pages (pager t') p = pages (pager t) p) \<and>
     getPage mem (pager t) (fst (row_address (numRows t))) =
       Inr ((pager t)\<lparr>pages := (pages (pager t))(fst (row_address (numRows t)) \<mapsto> page)\<rparr>, page) \<and>
     (\<forall>old. pages (pager t) (fst (row_address (numRows t))) = Some old \<longrightarrow> page = old) \<and>
     pages (pager t') (fst (row_address (numRows t))) = Some page' \<and>
     length page = PAGE_SIZE \<and> length page' = PAGE_SIZE \<and>
     (\<forall>k < PAGE_SIZE. k < snd (row_address (numRows t)) \<or>
                      snd (row_address (numRows t)) + ROW_SIZE \<le> k \<longrightarrow> page' ! k = page ! k) \<and>
     bytes_at page' (snd (row_address (numRows t))) ROW_SIZE = encode r \<and>
     (\<forall>i < numRows t. row_at mem t' i = row_at mem t i)"
proof -
  let ?n = "numRows t"
  let ?p = "fst (row_address ?n)"
  let ?off = "snd (row_address ?n)"
  let ?page = "fetched mem (pager t) ?p"
  let ?page' = "serializeRow r ?page ?off"
  let ?t' = "\<lparr> numRows = ?n + 1, pager = (pager t)\<lparr>pages := (pages (pager t))(?p \<mapsto> ?page')\<rparr> \<rparr>"
  have p: "?p < TABLE_MAX_PAGES" using assms(1) by (rule row_address_page)
  have lp: "length ?page = PAGE_SIZE" using p assms(2) by (rule length_fetched)
  have fit: "?off + ROW_SIZE \<le> length ?page" using row_address_offset [of ?n] lp by simp
  have ser: "?page' = memcpy_to ?page ?off (row_bytes r)"
    using assms(3) fit by (rule serializeRow_memcpy)
  have lrb: "length (row_bytes r) = ROW_SIZE" using assms(3) by (rule length_row_bytes)
  have fit': "?off + length (row_bytes r) \<le> length ?page" using fit lrb by simp
  have lp': "length ?page' = PAGE_SIZE"
    unfolding ser using fit' lp by (simp add: length_memcpy_to)
  have ins: "executeInsertStatement mem r t = Inr (EXECUTE_SUCCESS, ?t')"
    using assms(1) by (simp add: executeInsertStatement_eq)
  have frame: "?page' ! k = ?page ! k" if "k < PAGE_SIZE" "k < ?off \<or> ?off + ROW_SIZE \<le> k" for k
    unfolding ser using that fit' lp lrb nth_memcpy_to [of ?off "row_bytes r" ?page k] by auto
  have new: "bytes_at ?page' ?off ROW_SIZE = encode r"
    unfolding ser using bytes_at_memcpy_to_same [OF fit'] lrb assms(3)
    by (simp add: encode_row_bytes)
  have old: "row_at mem ?t' i = row_at mem t i" if i: "i < ?n" for i
  proof -
    have i': "i < TABLE_MAX_ROWS" using i assms(1) by simp
    let ?pi = "fst (row_address i)" and ?oi = "snd (row_address i)"
    have "deserializeRow (fetched mem (pager ?t') ?pi) ?oi = deserializeRow (fetched mem (pager t) ?pi) ?oi"
    proof (cases "?pi = ?p")
      case True
      have f': "fetched mem (pager ?t') ?pi = ?page'"
        using p True by (simp add: fetched_resident)
      have "?oi + ROW_SIZE \<le> ?off" using i True by (rule row_address_same_page)
      then have "bytes_at ?page' ?oi ROW_SIZE = bytes_at ?page ?oi ROW_SIZE"
        unfolding ser using fit' by (intro bytes_at_memcpy_to_other) simp_all
      then show ?thesis
        using deserializeRow_bytes_at [of ?page' ?oi] deserializeRow_bytes_at [of ?page ?oi] f' True
        by simp
    next
      case False
      then have "fetched mem (pager ?t') ?pi = fetched mem (pager t) ?pi"
        by (intro fetched_cong) simp_all
      then show ?thesis by simp
    qed
    then show ?thesis by (simp add: row_at_eq [OF i'])
  qed
  have res: "\<forall>old. pages (pager t) ?p = Some old \<longrightarrow> ?page = old"
    using p by (simp add: fetched_resident)
  have "executeInsertStatement mem r t = Inr (EXECUTE_SUCCESS, ?t') \<and>
     numRows ?t' = numRows t + 1 \<and>
     fd (pager ?t') = fd (pager t) \<and> fLen (pager ?t') = fLen (pager t) \<and>
     (\<forall>p. p \<noteq> ?p \<longrightarrow> pages (pager ?t') p = pages (pager t) p) \<and>
     getPage mem (pager t) ?p = Inr ((pager t)\<lparr>pages := (pages (pager t))(?p \<mapsto> ?page)\<rparr>, ?page) \<and>
     (\<forall>old. pages (pager t) ?p = Some old \<longrightarrow> ?page = old) \<and>
     pages (pager ?t') ?p = Some ?page' \<and>
     length ?page = PAGE_SIZE \<and> length ?page' = PAGE_SIZE \<and>
     (\<forall>k < PAGE_SIZE. k < ?off \<or> ?off + ROW_SIZE \<le> k \<longrightarrow> ?page' ! k = ?page ! k) \<and>
     bytes_at ?page' ?off ROW_SIZE = encode r \<and>
     (\<forall>i < numRows t. row_at mem ?t' i = row_at mem t i)"
    using ins getPage_eq [OF p, of mem "pager t"] res lp lp' frame new old by simp
  then show ?thesis by blast
qed

theorem insert_frame_witness:
  "numRows table1 < TABLE_MAX_ROWS \<and> page_sized (pager table1) \<and> row_sized row0 \<and>
   (\<exists>t' page'. executeInsertStatement mem1 row0 table1 = Inr (EXECUTE_SUCCESS, t') \<and>
      numRows t' = 2 \<and> pages (pager t') 1 = pages (pager table1) 1 \<and>
      pages (pager t') 0 = Some page' \<and> page' ! 0 = page1 ! 0 \<and>
      bytes_at page' 293 ROW_SIZE = encode row0 \<and>
      row_at mem1 t' 0 = row_at mem1 table1 0)"
proof -
  have a: "numRows table1 < TABLE_MAX_ROWS" by (simp add: table1_def TABLE_MAX_ROWS_val)
  have c: "row_sized row0" using valid_row0 by (simp add: valid_row_def)
  have ra: "row_address (Suc 0) = (0, 293)"
    by (simp add: row_address_def ROWS_PER_PAGE_val ROW_SIZE_val)
  have old: "pages (pager table1) 0 = Some page1" by (simp add: table1_def)
  have n: "numRows table1 = 1" by (simp add: table1_def)
  have k: "(0::nat) < PAGE_SIZE" by (simp add: PAGE_SIZE_def)
  from insert_frame [OF a page_sized_table1 c, of mem1]
  show ?thesis using a page_sized_table1 c old k
    by (elim exE conjE) (auto simp: numeral_2_eq_2 n ra)
qed

text \<open>
  C8. Order preservation in one session: for every list of at most \<open>TABLE_MAX_ROWS\<close>
  rows with fields within capacity, inserted in order into a store just opened on a file
  that gives row count 0, every insert succeeds and \<open>executeSelectStatement\<close> yields
  exactly these rows, equal byte for byte, in insertion order.
\<close>

theorem select_after_inserts:
  assumes "numRows (openDatabase file) = 0" and "length rows \<le> TABLE_MAX_ROWS"
    and "\<forall>r \<in> set rows. valid_row r"
  shows "\<exists>t. insert_rows mem rows (openDatabase file) =
               Inr (replicate (length rows) EXECUTE_SUCCESS, t) \<and>
             executeSelectStatement mem t = Inr (rows, t)"
proof -
  from assms(3) have rs: "\<forall>r \<in> set rows. row_sized r" by (simp add: valid_row_def)
  from holds_rows_insert_rows [OF holds_rows_open [OF assms(1)], of rows mem] assms(2) rs
  obtain t where t: "insert_rows mem rows (openDatabase file) =
               Inr (replicate (length rows) EXECUTE_SUCCESS, t)" "holds_rows t rows"
    by auto
  then have "numRows t = length rows" by (simp add: holds_rows_def)
  with holds_rows_select_loop [OF t(2) assms(2) rs, of 0 "length rows" mem]
  have "executeSelectStatement mem t = Inr (rows, t)"
    by (simp add: executeSelectStatement_def)
  with t(1) show ?thesis by blast
qed

theorem select_after_inserts_witness:
  "numRows (openDatabase []) = 0 \<and> length [row0, row0\<lparr>id := 8\<rparr>] \<le> TABLE_MAX_ROWS \<and>
   valid_row row0 \<and> valid_row (row0\<lparr>id := 8\<rparr>) \<and>
   (\<exists>t. insert_rows mem1 [row0, row0\<lparr>id := 8\<rparr>] (openDatabase []) =
          Inr (replicate (length [row0, row0\<lparr>id := 8\<rparr>]) EXECUTE_SUCCESS, t) \<and>
        executeSelectStatement mem1 t = Inr ([row0, row0\<lparr>id := 8\<rparr>], t))"
proof -
  have a: "numRows (openDatabase []) = 0" by (rule numRows_openDatabase_empty)
  have b: "length [row0, row0\<lparr>id := 8\<rparr>] \<le> TABLE_MAX_ROWS" by (simp add: TABLE_MAX_ROWS_val)
  have v: "valid_row (row0\<lparr>id := 8\<rparr>)" using valid_row0 by (simp add: valid_row_def row_sized_def)
  then have c: "\<forall>r \<in> set [row0, row0\<lparr>id := 8\<rparr>]. valid_row r" using valid_row0 by simp
  from select_after_inserts [OF a b c, of mem1] a b v valid_row0 show ?thesis by blast
qed

text \<open>
  C2, as stated, fails: \<open>closeDatabase\<close> writes every full page with \<open>PAGE_SIZE\<close>
  bytes at the offset \<open>pageNum * PAGE_SIZE\<close>. After 14 inserts into the store opened on
  the empty file (14 is positive and not a multiple of 13) the file has 4096 + 293 = 4389
  bytes, not 14 * 293 = 4102.
\<close>

theorem close_file_not_flat:
  "\<not> isl (session_file mem1 (replicate 14 row0) []) \<and>
   length (projr (session_file mem1 (replicate 14 row0) [])) = 4389 \<and>
   14 * ROW_SIZE = 4102 \<and> 0 < length (replicate 14 row0) \<and>
   length (replicate 14 row0) mod ROWS_PER_PAGE \<noteq> 0"
proof -
  have a: "length (replicate 14 row0) \<le> TABLE_MAX_ROWS" by (simp add: TABLE_MAX_ROWS_val)
  have b: "\<forall>r \<in> set (replicate 14 row0). row_sized r" using valid_row0 by (simp add: valid_row_def)
  from session_file_layout [OF a b, of mem1] obtain fl where
    "session_file mem1 (replicate 14 row0) [] = Inr fl" "length fl = 4389"
    by (auto simp: ROWS_PER_PAGE_val ROW_SIZE_val PAGE_SIZE_def)
  then show ?thesis by (simp add: ROWS_PER_PAGE_val ROW_SIZE_val)
qed

text \<open>
  C2, amended. For every list of \<open>N \<le> TABLE_MAX_ROWS\<close> valid rows inserted into the
  store opened on the empty file (so also for \<open>N > 0\<close> not a multiple of
  \<open>ROWS_PER_PAGE\<close>), after \<open>closeDatabase\<close> the file has
  \<open>(N div ROWS_PER_PAGE) * PAGE_SIZE + (N mod ROWS_PER_PAGE) * ROW_SIZE\<close> bytes: whole pages
  of \<open>PAGE_SIZE\<close> bytes and the rows of the last, partial page, not rounded up to a
  page. There is no header and nothing after the last row; the encoded record of row
  \<open>i\<close> is at byte \<open>(i div ROWS_PER_PAGE) * PAGE_SIZE + (i mod ROWS_PER_PAGE) * ROW_SIZE\<close>.
  With fewer than \<open>ROWS_PER_PAGE\<close> rows the length is \<open>N * ROW_SIZE\<close> and the file is
  the concatenation of the encoded records.
\<close>

theorem close_file_layout:
  assumes "length rows \<le> TABLE_MAX_ROWS" and "\<forall>r \<in> set rows. valid_row r"
  shows "\<exists>fl. session_file mem rows [] = Inr fl \<and>
     length fl = (length rows div ROWS_PER_PAGE) * PAGE_SIZE + (length rows mod ROWS_PER_PAGE) * ROW_SIZE \<and>
     (\<forall>i < length rows.
        bytes_at fl (fst (row_address i) * PAGE_SIZE + snd (row_address i)) ROW_SIZE = encode (rows ! i)) \<and>
     (length rows < ROWS_PER_PAGE \<longrightarrow> length fl = length rows * ROW_SIZE \<and> fl = concat (map encode rows))"
proof -
  from assms(2) have rs: "\<forall>r \<in> set rows. row_sized r" by (simp add: valid_row_def)
  from session_file_layout [OF assms(1) rs, of mem] obtain fl where
    f: "session_file mem rows [] = Inr fl"
       "length fl = (length rows div ROWS_PER_PAGE) * PAGE_SIZE + (length rows mod ROWS_PER_PAGE) * ROW_SIZE"
       "\<forall>i < length rows.
        bytes_at fl (fst (row_address i) * PAGE_SIZE + snd (row_address i)) ROW_SIZE = row_bytes (rows ! i)"
    by blast
  have enc: "encode (rows ! i) = row_bytes (rows ! i)" if "i < length rows" for i
    using rs that by (simp add: encode_row_bytes)
  have flat: "length fl = length rows * ROW_SIZE \<and> fl = concat (map encode rows)"
    if small: "length rows < ROWS_PER_PAGE"
  proof -
    have l: "length fl = length (map encode rows) * ROW_SIZE" using f(2) small by simp
    have s: "\<forall>x \<in> set (map encode rows). length x = ROW_SIZE"
      using rs by (simp add: encode_row_bytes length_row_bytes)
    have "bytes_at fl (i * ROW_SIZE) ROW_SIZE = map encode rows ! i" if "i < length rows" for i
    proof -
      from that small have ra: "row_address i = (0, i * ROW_SIZE)" by (simp add: row_address_def)
      from f(3) that
      have "bytes_at fl (fst (row_address i) * PAGE_SIZE + snd (row_address i)) ROW_SIZE = row_bytes (rows ! i)"
        by blast
      then show ?thesis using enc [OF that] that by (simp add: ra)
    qed
    then have "\<forall>i < length (map encode rows). bytes_at fl (i * ROW_SIZE) ROW_SIZE = map encode rows ! i"
      by simp
    from concat_slots [OF l s this] l show ?thesis by simp
  qed
  show ?thesis using f enc flat by auto
qed

theorem close_file_layout_witness:
  "length (replicate 14 row0) \<le> TABLE_MAX_ROWS \<and> valid_row row0 \<and>
   (\<exists>fl. session_file mem1 (replicate 14 row0) [] = Inr fl \<and> length fl = 4389 \<and>
      bytes_at fl 4096 ROW_SIZE = encode row0) \<and>
   length [row0] < ROWS_PER_PAGE \<and>
   session_file mem1 [row0] [] = Inr (encode row0)"
proof -
  have a: "length (replicate 14 row0) \<le> TABLE_MAX_ROWS" by (simp add: TABLE_MAX_ROWS_val)
  have b: "\<forall>r \<in> set (replicate 14 row0). valid_row r" using valid_row0 by simp
  have c: "row_address 13 = (1, 0)" by (simp add: row_address_def ROWS_PER_PAGE_val ROW_SIZE_val)
  have d: "(13::nat) < length (replicate 14 row0)" by simp
  from close_file_layout [OF a b, of mem1] obtain fl where
    f: "session_file mem1 (replicate 14 row0) [] = Inr fl"
       "length fl = 4389"
       "\<forall>i < length (replicate 14 row0).
        bytes_at fl (fst (row_address i) * PAGE_SIZE + snd (row_address i)) ROW_SIZE
          = encode (replicate 14 row0 ! i)"
    by (auto simp: ROWS_PER_PAGE_val ROW_SIZE_val PAGE_SIZE_def)
  from f(3) d have "bytes_at fl (fst (row_address 13) * PAGE_SIZE + snd (row_address 13)) ROW_SIZE
          = encode (replicate 14 row0 ! 13)" by blast
  then have e: "bytes_at fl 4096 ROW_SIZE = encode row0" by (simp add: c PAGE_SIZE_def)
  have a1: "length [row0] \<le> TABLE_MAX_ROWS" by (simp add: TABLE_MAX_ROWS_val)
  have b1: "\<forall>r \<in> set [row0]. valid_row r" using valid_row0 by simp
  have s1: "length [row0] < ROWS_PER_PAGE" by (simp add: ROWS_PER_PAGE_val)
  from close_file_layout [OF a1 b1, of mem1] s1
  have "session_file mem1 [row0] [] = Inr (encode row0)" by auto
  with a valid_row0 f(1,2) e s1 show ?thesis by blast
qed

text \<open>
  C1. Persistence round trip. The claim is that after inserts into a store opened on an
  empty file, \<open>closeDatabase\<close> and a new \<open>openDatabase\<close>, the row count is the
  number of rows inserted and select returns the same rows. \<open>openDatabase\<close> divides the
  file length by \<open>ROW_SIZE\<close>, while the file holds pages of \<open>PAGE_SIZE\<close> bytes: after
  26 inserts the file has 8192 bytes, the reopened store has 27 rows, and select returns
  27 rows.
\<close>

theorem reopen_row_count_wrong:
  "\<exists>fl rs t. session_file mem1 (replicate 26 row0) [] = Inr fl \<and> length fl = 8192 \<and>
          numRows (openDatabase fl) = 27 \<and>
          executeSelectStatement mem1 (openDatabase fl) = Inr (rs, t) \<and> length rs = 27"
proof -
  have a: "length (replicate 26 row0) \<le> TABLE_MAX_ROWS" by (simp add: TABLE_MAX_ROWS_val)
  have b: "\<forall>r \<in> set (replicate 26 row0). row_sized r" using valid_row0 by (simp add: valid_row_def)
  from session_file_layout [OF a b, of mem1] obtain fl where
    f: "session_file mem1 (replicate 26 row0) [] = Inr fl" "length fl = 8192"
    by (auto simp: ROWS_PER_PAGE_val ROW_SIZE_val PAGE_SIZE_def)
  from f(2) have n: "numRows (openDatabase fl) = 27"
    by (simp add: openDatabase_def openPager_def Let_def ROW_SIZE_val)
  then have "0 + numRows (openDatabase fl) \<le> TABLE_MAX_ROWS" by (simp add: TABLE_MAX_ROWS_val)
  from select_loop_returns [OF this, of mem1 "openDatabase fl"] obtain rs t where
    s: "executeSelectStatement mem1 (openDatabase fl) = Inr (rs, t)"
    by (auto simp: executeSelectStatement_def)
  then have "length rs = 27" using select_loop_length [of mem1 "openDatabase fl" 0 27 rs t] n
    by (simp add: executeSelectStatement_def)
  with f n s show ?thesis by blast
qed


end
